theory Spec2Isabelle
  imports Main
begin

section \<open>The Tic-Tac-Toe engine of client/game.ts\<close>

text \<open>
  The class \<open>Game\<close> is embedded by explicit state passing: every method takes the
  object and returns it updated. JavaScript numbers are modelled by \<open>int\<close>: the
  coordinates and turn numbers of the engine are integers, and the embedding does not
  cover non-integral arguments. The code's \<open>turnCount++\<close> adds doubles: it is the integer
  successor for counters from \<open>-2^53\<close> to \<open>2^53 - 1\<close> and leaves \<open>2^53\<close> unchanged, so a
  statement about the counter of an arbitrary state carries that range as a hypothesis (an
  engine started by the constructor would need \<open>2^53\<close> accepted moves to leave it). The rows of
  the board are separate arrays, as \<open>setupBoard\<close> builds them, so the board is a list of
  lists.
\<close>

subsection \<open>Data\<close>

text \<open>The players X and O; the constant \<open>O\<close> of HOL is the composition of relations.\<close>

datatype player = PlayerX | PlayerO

type_synonym cell = "player option"

record PlayHistory =
  player :: player
  row :: int
  col :: int
  turn :: int

text \<open>
  \<open>play\<close> throws \<open>new Error(message)\<close>; reading a property of \<open>undefined\<close>
  throws a \<open>TypeError\<close>.
\<close>

datatype error = Error string | TypeError

text \<open>
  The children of \<open>boardElement\<close>: the row elements that \<open>renderBoard\<close> appends,
  each with the text of its cells (their classes and opacities are not modelled), and the
  winner messages of \<open>showWinner\<close>. A message element carries a number that stands for
  its identity as an object and its text.
\<close>

datatype element = RowElement "cell list" | WinnerMessage nat string

text \<open>
  A pending timeout of the window: the handle \<open>setTimeout\<close> returned, the delay in
  milliseconds, and the message element that the callback of \<open>showWinner\<close> captured.
\<close>

record Timeout =
  handle :: nat
  delay :: nat
  message :: element

text \<open>
  The fields of \<open>Game\<close>, followed by the part of the browser that \<open>showWinner\<close>
  works on: the timeouts this object has scheduled that have neither fired nor been
  cleared, the next handle \<open>setTimeout\<close> gives out, and the number of the next
  element that \<open>createElement\<close> makes.
\<close>

record Game =
  board :: "cell list list"
  currentPlayer :: player
  turnCount :: int
  playHistory :: "PlayHistory list"
  boardElement :: "element list"
  winnerTimeoutId :: "nat option"
  timeouts :: "Timeout list"
  nextTimeoutId :: nat
  nextNodeId :: nat

subsection \<open>Array access\<close>

text \<open>\<open>xs[i]\<close> of JavaScript: \<open>None\<close> stands for \<open>undefined\<close>.\<close>

definition lookup :: "'a list \<Rightarrow> int \<Rightarrow> 'a option" where
  "lookup xs i = (if 0 \<le> i \<and> i < int (length xs) then Some (xs ! nat i) else None)"

text \<open>\<open>board[r][c]\<close> where the code has checked both indices before.\<close>

definition cellAt :: "cell list list \<Rightarrow> int \<Rightarrow> int \<Rightarrow> cell" where
  "cellAt b r c = b ! nat r ! nat c"

text \<open>\<open>board[r][c] = v\<close> where the code has checked both indices before.\<close>

definition setCell :: "cell list list \<Rightarrow> int \<Rightarrow> int \<Rightarrow> cell \<Rightarrow> cell list list" where
  "setCell b r c v = b[nat r := (b ! nat r)[nat c := v]]"

text \<open>\<open>xs.every((x, i) => P x i)\<close>.\<close>

definition every :: "('a \<Rightarrow> int \<Rightarrow> bool) \<Rightarrow> 'a list \<Rightarrow> bool" where
  "every P xs = list_all (\<lambda>(i, x). P x (int i)) (enumerate 0 xs)"

subsection \<open>The methods\<close>

definition setupBoard :: "Game \<Rightarrow> Game" where
  "setupBoard s = s\<lparr>board := [[None, None, None], [None, None, None], [None, None, None]],
                    currentPlayer := PlayerX, turnCount := 0, playHistory := []\<rparr>"

text \<open>
  \<open>renderBoard\<close> empties \<open>boardElement\<close> (\<open>innerHTML = ""\<close>, which also drops a
  winner message) and appends one row element for each row of the board.
\<close>

definition renderBoard :: "Game \<Rightarrow> Game" where
  "renderBoard s = s\<lparr>boardElement := map RowElement (board s)\<rparr>"

definition init :: "Game \<Rightarrow> Game" where
  "init s = renderBoard (setupBoard s)"

definition resetBoard :: "Game \<Rightarrow> Game" where
  "resetBoard s = renderBoard (setupBoard s)"

text \<open>
  The constructor, for a board element with the given children in a window where this
  object has no timeout yet.
\<close>

definition constructor :: "element list \<Rightarrow> Game" where
  "constructor boardElement0 =
     init \<lparr>board = [], currentPlayer = PlayerX, turnCount = 0, playHistory = [],
           boardElement = boardElement0, winnerTimeoutId = None,
           timeouts = [], nextTimeoutId = 1, nextNodeId = 0\<rparr>"

definition isValidCell :: "Game \<Rightarrow> int \<Rightarrow> int \<Rightarrow> bool" where
  "isValidCell s r c =
     (r \<ge> 0 \<and> r < int (length (board s)) \<and> c \<ge> 0 \<and> c < int (length (board s ! nat r)))"

text \<open>The test on a history entry that \<open>clearOldTurnsFromPlayHistory\<close> and
  \<open>updateBoardWithPlay\<close> both make.\<close>

definition inBounds :: "cell list list \<Rightarrow> PlayHistory \<Rightarrow> bool" where
  "inBounds b p =
     (row p \<ge> 0 \<and> row p < int (length b) \<and> col p \<ge> 0 \<and> col p < int (length (b ! nat (row p))))"

text \<open>
  The callback of \<open>filter\<close> in \<open>clearOldTurnsFromPlayHistory\<close> writes to the board
  while the history is traversed, so the traversal threads the board: the result is the
  entries kept and the board after the last callback.
\<close>

fun clearOld :: "int \<Rightarrow> PlayHistory list \<Rightarrow> cell list list \<Rightarrow> PlayHistory list \<times> cell list list" where
  "clearOld tc [] b = ([], b)"
| "clearOld tc (p # ps) b =
     (if \<not> inBounds b p then clearOld tc ps b
      else if tc - turn p \<ge> 6 then clearOld tc ps (setCell b (row p) (col p) None)
      else (case clearOld tc ps b of (ks, b') \<Rightarrow> (p # ks, b')))"

definition clearOldTurnsFromPlayHistory :: "Game \<Rightarrow> Game" where
  "clearOldTurnsFromPlayHistory s =
     (case clearOld (turnCount s) (playHistory s) (board s) of
        (ks, b') \<Rightarrow> s\<lparr>board := b', playHistory := ks\<rparr>)"

definition updateBoardWithPlay :: "PlayHistory \<Rightarrow> Game \<Rightarrow> Game" where
  "updateBoardWithPlay p s =
     (if inBounds (board s) p
      then s\<lparr>board := setCell (board s) (row p) (col p) (Some (player p))\<rparr>
      else s)"

definition updateBoard :: "Game \<Rightarrow> Game" where
  "updateBoard s =
     (let s1 = clearOldTurnsFromPlayHistory s
      in (case playHistory s1 of
            [] \<Rightarrow> s1
          | _ \<Rightarrow> updateBoardWithPlay (last (playHistory s1)) s1))"

text \<open>
  \<open>checkWin\<close>: \<open>this.board[row][col]\<close> throws when \<open>board[row]\<close> is undefined; a
  cell that is \<open>null\<close> or \<open>undefined\<close> gives \<open>false\<close>.
\<close>

definition checkWin :: "Game \<Rightarrow> int \<Rightarrow> int \<Rightarrow> error + bool" where
  "checkWin s r c =
     (case lookup (board s) r of
        None \<Rightarrow> Inl TypeError
      | Some rw \<Rightarrow>
          (case lookup rw c of
             Some (Some p) \<Rightarrow>
               Inr (list_all (\<lambda>cell. cell = Some p) rw
                    \<or> list_all (\<lambda>rw'. lookup rw' c = Some (Some p)) (board s)
                    \<or> (r = c \<and> every (\<lambda>rw' i. lookup rw' i = Some (Some p)) (board s))
                    \<or> (r + c = int (length (board s)) - 1
                        \<and> every (\<lambda>rw' i. lookup rw' (int (length (board s)) - 1 - i) = Some (Some p))
                            (board s)))
           | _ \<Rightarrow> Inr False))"

subsection \<open>The winner message and its timeout\<close>

text \<open>
  The browser's side, as its interface documents it: \<open>clearTimeout\<close> takes the timeout
  with the given handle out of the pending ones; \<open>setTimeout\<close> adds one under a fresh
  handle and returns the handle. A timeout fires once: firing takes it out of the pending
  ones and runs its callback.
\<close>

definition clearTimeout :: "nat \<Rightarrow> Game \<Rightarrow> Game" where
  "clearTimeout h s = s\<lparr>timeouts := filter (\<lambda>t. handle t \<noteq> h) (timeouts s)\<rparr>"

definition setTimeout :: "element \<Rightarrow> nat \<Rightarrow> Game \<Rightarrow> nat \<times> Game" where
  "setTimeout m d s =
     (nextTimeoutId s,
      s\<lparr>timeouts := timeouts s @ [\<lparr>handle = nextTimeoutId s, delay = d, message = m\<rparr>],
        nextTimeoutId := Suc (nextTimeoutId s)\<rparr>)"

fun showPlayer :: "player \<Rightarrow> string" where
  "showPlayer PlayerX = ''X''"
| "showPlayer PlayerO = ''O''"

definition showWinner :: "player \<Rightarrow> Game \<Rightarrow> Game" where
  "showWinner winner s =
     (let s1 = (case winnerTimeoutId s of
                  Some h \<Rightarrow> (clearTimeout h s)\<lparr>winnerTimeoutId := None\<rparr>
                | None \<Rightarrow> s);
          winnerMessage = WinnerMessage (nextNodeId s1) (showPlayer winner @ '' wins!'');
          s2 = s1\<lparr>nextNodeId := Suc (nextNodeId s1)\<rparr>;
          s3 = s2\<lparr>boardElement := boardElement s2 @ [winnerMessage]\<rparr>
      in (case setTimeout winnerMessage 2000 s3 of
            (h, s4) \<Rightarrow> s4\<lparr>winnerTimeoutId := Some h\<rparr>))"

text \<open>The callback that \<open>showWinner\<close> passes to \<open>setTimeout\<close>.\<close>

definition winnerCallback :: "element \<Rightarrow> Game \<Rightarrow> Game" where
  "winnerCallback m s =
     (let s1 = (if m \<in> set (boardElement s)
                then s\<lparr>boardElement := remove1 m (boardElement s)\<rparr> else s)
      in s1\<lparr>winnerTimeoutId := None\<rparr>)"

text \<open>The pending timeout \<open>t\<close> fires.\<close>

definition fire :: "Timeout \<Rightarrow> Game \<Rightarrow> Game" where
  "fire t s = winnerCallback (message t) (s\<lparr>timeouts := remove1 t (timeouts s)\<rparr>)"

subsection \<open>play\<close>

text \<open>
  The result of a call is what it throws (\<open>Inl\<close>) or returns (\<open>Inr\<close>, with \<open>None\<close>
  for no value), together with the object after the call.
\<close>

text \<open>
  Lines 113 to 120: the mark is set, the entry is pushed, the counter goes up. The sum is
  the one of the integers, which is the code's sum of doubles while the counter lies between
  \<open>-2^53\<close> and \<open>2^53 - 1\<close>.
\<close>

definition placeMove :: "Game \<Rightarrow> int \<Rightarrow> int \<Rightarrow> Game" where
  "placeMove s r c =
     (let s1 = s\<lparr>board := setCell (board s) r c (Some (currentPlayer s))\<rparr>;
          s2 = s1\<lparr>playHistory := playHistory s1 @
                 [\<lparr>player = currentPlayer s1, row = r, col = c, turn = turnCount s1\<rparr>]\<rparr>
      in s2\<lparr>turnCount := turnCount s2 + 1\<rparr>)"

definition play :: "Game \<Rightarrow> int \<Rightarrow> int \<Rightarrow> (error + string option) \<times> Game" where
  "play s r c =
     (if \<not> isValidCell s r c then (Inl (Error ''Invalid move. Please select a valid cell.''), s)
      else if cellAt (board s) r c \<noteq> None
      then (Inl (Error ''Cell already taken. Choose another one.''), s)
      else
        (let s1 = renderBoard (updateBoard (placeMove s r c))
         in (case checkWin s1 r c of
               Inl e \<Rightarrow> (Inl e, s1)
             | Inr True \<Rightarrow>
                 (let winner = currentPlayer s1;
                      s2 = showWinner winner (resetBoard s1)
                  in (Inr (Some (showPlayer winner @ '' wins!'')), s2))
             | Inr False \<Rightarrow>
                 (Inr None, s1\<lparr>currentPlayer := (if currentPlayer s1 = PlayerX then PlayerO else PlayerX)\<rparr>))))"


subsection \<open>Notions of the statements\<close>

text \<open>
  The board that \<open>setupBoard\<close> builds.
\<close>

definition emptyBoard :: "cell list list" where
  "emptyBoard = [[None, None, None], [None, None, None], [None, None, None]]"

text \<open>
  The engine state of the specification: board, current player, turn counter and history.
\<close>

definition engineState :: "Game \<Rightarrow> cell list list \<times> player \<times> int \<times> PlayHistory list" where
  "engineState s = (board s, currentPlayer s, turnCount s, playHistory s)"

text \<open>
  The board is a grid of three rows of three cells.
\<close>

definition wf3 :: "cell list list \<Rightarrow> bool" where
  "wf3 b = (length b = 3 \<and> list_all (\<lambda>rw. length rw = 3) b)"

text \<open>
  Both coordinates lie in \<open>[0, 3)\<close>.
\<close>

definition inRange :: "int \<Rightarrow> int \<Rightarrow> bool" where
  "inRange r c = (0 \<le> r \<and> r < 3 \<and> 0 \<le> c \<and> c < 3)"

text \<open>
  The cell \<open>(r, c)\<close> lies on a line of the board that player \<open>p\<close> occupies entirely: its row, its
  column, the main diagonal when \<open>r = c\<close>, the anti-diagonal when \<open>r + c = 2\<close>. This is the
  win condition in the words of the specification; \<open>checkWin\<close> above is the code.
\<close>

definition completesLine :: "cell list list \<Rightarrow> int \<Rightarrow> int \<Rightarrow> player \<Rightarrow> bool" where
  "completesLine b r c p =
     ((cellAt b r 0 = Some p \<and> cellAt b r 1 = Some p \<and> cellAt b r 2 = Some p)
      \<or> (cellAt b 0 c = Some p \<and> cellAt b 1 c = Some p \<and> cellAt b 2 c = Some p)
      \<or> (r = c \<and> cellAt b 0 0 = Some p \<and> cellAt b 1 1 = Some p \<and> cellAt b 2 2 = Some p)
      \<or> (r + c = 2 \<and> cellAt b 0 2 = Some p \<and> cellAt b 1 1 = Some p \<and> cellAt b 2 0 = Some p))"

text \<open>
  On a board of three by three, the entries that \<open>clearOldTurnsFromPlayHistory\<close> keeps when
  the turn counter is \<open>tc\<close>, and the entries whose cell it clears.
\<close>

definition keeps :: "int \<Rightarrow> PlayHistory \<Rightarrow> bool" where
  "keeps tc p = (inRange (row p) (col p) \<and> tc - turn p < 6)"

definition expires :: "int \<Rightarrow> PlayHistory \<Rightarrow> bool" where
  "expires tc p = (inRange (row p) (col p) \<and> tc - turn p \<ge> 6)"

text \<open>
  The entry that \<open>play\<close> pushes.
\<close>

definition newEntry :: "Game \<Rightarrow> int \<Rightarrow> int \<Rightarrow> PlayHistory" where
  "newEntry s r c = \<lparr>player = currentPlayer s, row = r, col = c, turn = turnCount s\<rparr>"

text \<open>
  The player who moves when the turn counter is \<open>t\<close> in a game that started at \<open>0\<close>, and
  the opponent of a player.
\<close>

definition whoseTurn :: "int \<Rightarrow> player" where
  "whoseTurn t = (if even t then PlayerX else PlayerO)"

definition otherPlayer :: "player \<Rightarrow> player" where
  "otherPlayer p = (if p = PlayerX then PlayerO else PlayerX)"

text \<open>
  The cell of a history entry.
\<close>

definition pos :: "PlayHistory \<Rightarrow> int \<times> int" where
  "pos p = (row p, col p)"

text \<open>
  What holds of every history entry of an engine whose turn counter is \<open>tc\<close>: its cell is on
  the board, it is less than six turns old, and it was made by the player whose turn it was.
\<close>

definition entryOk :: "int \<Rightarrow> PlayHistory \<Rightarrow> bool" where
  "entryOk tc p = (inRange (row p) (col p) \<and> tc - 6 < turn p \<and> turn p < tc
                   \<and> player p = whoseTurn (turn p))"

text \<open>
  The invariant of the engine: the board is three by three, the current player is the one
  whose turn it is, the entries of the history are as above, in the order of their turns and on
  cells that differ from one another, and a cell holds a player exactly when an entry of the
  history on that cell has that player.
\<close>

definition engineInv :: "Game \<Rightarrow> bool" where
  "engineInv s =
     (wf3 (board s) \<and> 0 \<le> turnCount s \<and> currentPlayer s = whoseTurn (turnCount s)
      \<and> list_all (entryOk (turnCount s)) (playHistory s)
      \<and> sorted_wrt (\<lambda>p q. turn p < turn q) (playHistory s)
      \<and> distinct (map pos (playHistory s))
      \<and> (\<forall>r c pl. inRange r c \<longrightarrow>
            (cellAt (board s) r c = Some pl) =
            (\<exists>p \<in> set (playHistory s). row p = r \<and> col p = c \<and> player p = pl)))"

text \<open>
  The invariant of the winner message: the pending timeouts are the one whose handle
  \<open>winnerTimeoutId\<close> holds, and none when it is \<open>null\<close>; each has a delay of 2000
  milliseconds.
\<close>

definition timerInv :: "Game \<Rightarrow> bool" where
  "timerInv s =
     (map handle (timeouts s) = (case winnerTimeoutId s of None \<Rightarrow> [] | Some h \<Rightarrow> [h])
      \<and> list_all (\<lambda>t. delay t = 2000) (timeouts s))"

text \<open>
  The states of an engine and its window: the constructor returns one; \<open>play\<close> leads from
  one to the next, whatever it returns or throws; so do a call of \<open>showWinner\<close> (the method is
  public, and the tests call it) and the firing of a pending timeout.
\<close>

inductive reachable :: "Game \<Rightarrow> bool" where
  reachable_constructor: "reachable (constructor be)"
| reachable_play: "reachable s \<Longrightarrow> reachable (snd (play s r c))"
| reachable_showWinner: "reachable s \<Longrightarrow> reachable (showWinner w s)"
| reachable_fire: "reachable s \<Longrightarrow> t \<in> set (timeouts s) \<Longrightarrow> reachable (fire t s)"

text \<open>
  The number of cells of the board that hold a player.
\<close>

definition occupied :: "cell list list \<Rightarrow> nat" where
  "occupied b = length (filter (\<lambda>cell. cell \<noteq> None) (concat b))"

text \<open>
  The nine cells, row by row.
\<close>

definition allCells :: "(int \<times> int) list" where
  "allCells = [(0, 0), (0, 1), (0, 2), (1, 0), (1, 1), (1, 2), (2, 0), (2, 1), (2, 2)]"

text \<open>
  The object after a sequence of calls of \<open>play\<close>, one for each pair of coordinates,
  whatever each call returns or throws.
\<close>

fun playAll :: "Game \<Rightarrow> (int \<times> int) list \<Rightarrow> Game" where
  "playAll s [] = s"
| "playAll s ((r, c) # ms) = playAll (snd (play s r c)) ms"

section \<open>Lemmas\<close>

lemma wf3_setCell:
  assumes "wf3 b"
  shows "wf3 (setCell b r c v)"
proof -
  from assms have len: "length b = 3" and rows: "\<And>n. n < 3 \<Longrightarrow> length (b ! n) = 3"
    by (simp_all add: wf3_def list_all_length)
  have "length (b[nat r := (b ! nat r)[nat c := v]] ! n) = 3" if "n < 3" for n
  proof (cases "n = nat r")
    case True
    with that len rows show ?thesis by simp
  next
    case False
    then have "b[nat r := (b ! nat r)[nat c := v]] ! n = b ! n" by simp
    with that rows show ?thesis by simp
  qed
  with len show ?thesis
    by (simp add: wf3_def setCell_def list_all_length)
qed

lemma cellAt_setCell:
  assumes "wf3 b" "inRange r c" "inRange r' c'"
  shows "cellAt (setCell b r c v) r' c' = (if r' = r \<and> c' = c then v else cellAt b r' c')"
proof -
  from assms have len: "length b = 3" and lr: "length (b ! nat r) = 3"
    and n: "nat r < 3" "nat c < 3" "nat r' < 3" "nat c' < 3"
    by (auto simp: wf3_def inRange_def list_all_length)
  from assms(2,3) have eq: "(nat r = nat r') = (r = r')" "(nat c = nat c') = (c = c')"
    by (auto simp: inRange_def)
  show ?thesis
    using len lr n eq by (auto simp: cellAt_def setCell_def nth_list_update)
qed

lemma inBounds_wf3: "wf3 b \<Longrightarrow> inBounds b p = inRange (row p) (col p)"
  by (auto simp: inBounds_def inRange_def wf3_def list_all_length)

lemma isValidCell_wf3: "wf3 (board s) \<Longrightarrow> isValidCell s r c = inRange r c"
  by (auto simp: isValidCell_def inRange_def wf3_def list_all_length)

lemma clearOld_wf3: "wf3 b \<Longrightarrow> wf3 (snd (clearOld tc ps b))"
  by (induction ps arbitrary: b) (simp_all add: wf3_setCell split_beta)

lemma clearOld_fst: "wf3 b \<Longrightarrow> fst (clearOld tc ps b) = filter (keeps tc) ps"
  by (induction ps arbitrary: b)
     (simp_all add: wf3_setCell inBounds_wf3 keeps_def split_beta)

lemma clearOld_cell:
  "wf3 b \<Longrightarrow> inRange r c \<Longrightarrow>
   cellAt (snd (clearOld tc ps b)) r c =
     (if \<exists>p \<in> set ps. expires tc p \<and> row p = r \<and> col p = c then None else cellAt b r c)"
proof (induction ps arbitrary: b)
  case Nil
  then show ?case by simp
next
  case (Cons p ps)
  show ?case
  proof (cases "inBounds b p")
    case False
    with Cons show ?thesis by (simp add: inBounds_wf3 expires_def)
  next
    case True
    note ib = this
    show ?thesis
    proof (cases "tc - turn p \<ge> 6")
      case True
      from ib Cons.prems have rg: "inRange (row p) (col p)" by (simp add: inBounds_wf3)
      have "cellAt (snd (clearOld tc ps (setCell b (row p) (col p) None))) r c =
            (if \<exists>p \<in> set ps. expires tc p \<and> row p = r \<and> col p = c then None
             else cellAt (setCell b (row p) (col p) None) r c)"
        using Cons.IH [OF wf3_setCell [OF Cons.prems(1)] Cons.prems(2)] .
      then show ?thesis
        using ib True rg Cons.prems
        by (auto simp: cellAt_setCell expires_def)
    next
      case False
      with ib Cons show ?thesis
        by (simp add: inBounds_wf3 expires_def split_beta)
    qed
  qed
qed

lemma wf3_explicit:
  assumes "wf3 b"
  shows "\<exists>a0 a1 a2 b0 b1 b2 c0 c1 c2. b = [[a0, a1, a2], [b0, b1, b2], [c0, c1, c2]]"
proof -
  have three: "\<And>xs :: 'a list. length xs = 3 \<Longrightarrow> \<exists>x y z. xs = [x, y, z]"
    by (auto simp: numeral_3_eq_3 length_Suc_conv)
  from assms obtain x y z where b: "b = [x, y, z]"
    using three [of b] by (auto simp: wf3_def)
  with assms have "length x = 3" "length y = 3" "length z = 3"
    by (simp_all add: wf3_def)
  then show ?thesis using b three [of x] three [of y] three [of z] by auto
qed

lemma checkWin_wf3:
  assumes "wf3 (board s)" "inRange r c"
  shows "checkWin s r c =
         Inr (case cellAt (board s) r c of None \<Rightarrow> False
              | Some p \<Rightarrow> completesLine (board s) r c p)"
proof -
  from assms(1) obtain a0 a1 a2 b0 b1 b2 c0 c1 c2
    where b: "board s = [[a0, a1, a2], [b0, b1, b2], [c0, c1, c2]]"
    using wf3_explicit by blast
  from assms(2) have rc: "(r = 0 \<or> r = 1 \<or> r = 2) \<and> (c = 0 \<or> c = 1 \<or> c = 2)"
    by (auto simp: inRange_def)
  have one: "nat 1 = Suc 0" and two: "nat 2 = Suc (Suc 0)" by simp_all
  from rc show ?thesis
    by (elim conjE disjE)
       (simp_all add: b checkWin_def lookup_def cellAt_def every_def completesLine_def
          enumerate_eq_zip split: option.splits)
qed

lemma placeMove_eq:
  "placeMove s r c =
     s\<lparr>board := setCell (board s) r c (Some (currentPlayer s)),
       playHistory := playHistory s @ [newEntry s r c],
       turnCount := turnCount s + 1\<rparr>"
  by (simp add: placeMove_def newEntry_def Let_def)

lemma keeps_newEntry: "inRange r c \<Longrightarrow> keeps (turnCount s + 1) (newEntry s r c)"
  by (simp add: keeps_def newEntry_def)

lemma updateBoard_if:
  "updateBoard s =
     (if playHistory (clearOldTurnsFromPlayHistory s) = [] then clearOldTurnsFromPlayHistory s
      else updateBoardWithPlay (last (playHistory (clearOldTurnsFromPlayHistory s)))
             (clearOldTurnsFromPlayHistory s))"
  by (simp add: updateBoard_def Let_def split: list.splits)

lemma clearOldTurnsFromPlayHistory_eq:
  "clearOldTurnsFromPlayHistory s =
     s\<lparr>board := snd (clearOld (turnCount s) (playHistory s) (board s)),
       playHistory := fst (clearOld (turnCount s) (playHistory s) (board s))\<rparr>"
  by (simp add: clearOldTurnsFromPlayHistory_def split_beta)

lemma updateBoard_placeMove:
  assumes "wf3 (board s)" "inRange r c"
  shows "updateBoard (placeMove s r c) =
     s\<lparr>board := setCell (snd (clearOld (turnCount s + 1) (playHistory s @ [newEntry s r c])
                                (setCell (board s) r c (Some (currentPlayer s)))))
                  r c (Some (currentPlayer s)),
       playHistory := filter (keeps (turnCount s + 1)) (playHistory s) @ [newEntry s r c],
       turnCount := turnCount s + 1\<rparr>"
proof -
  let ?b1 = "setCell (board s) r c (Some (currentPlayer s))"
  let ?h1 = "playHistory s @ [newEntry s r c]"
  let ?tc = "turnCount s + 1"
  have w1: "wf3 ?b1" using assms(1) by (rule wf3_setCell)
  have w2: "wf3 (snd (clearOld ?tc ?h1 ?b1))" using w1 by (rule clearOld_wf3)
  have h2: "fst (clearOld ?tc ?h1 ?b1) = filter (keeps ?tc) (playHistory s) @ [newEntry s r c]"
    using w1 assms(2) by (simp add: clearOld_fst keeps_newEntry)
  have ib: "inBounds (snd (clearOld ?tc ?h1 ?b1)) (newEntry s r c)"
    using w2 assms(2) by (simp add: inBounds_wf3 newEntry_def)
  have c: "clearOldTurnsFromPlayHistory (placeMove s r c) =
      s\<lparr>board := snd (clearOld ?tc ?h1 ?b1),
        playHistory := filter (keeps ?tc) (playHistory s) @ [newEntry s r c],
        turnCount := ?tc\<rparr>"
    by (simp add: clearOldTurnsFromPlayHistory_eq placeMove_eq h2)
  show ?thesis
    unfolding updateBoard_if c
    using ib by (simp add: updateBoardWithPlay_def newEntry_def)
qed

lemma updateBoard_placeMove_wf3:
  assumes "wf3 (board s)" "inRange r c"
  shows "wf3 (board (updateBoard (placeMove s r c)))"
  using assms by (simp add: updateBoard_placeMove wf3_setCell clearOld_wf3)

lemma updateBoard_placeMove_cell:
  assumes "wf3 (board s)" "inRange r c" "inRange r' c'"
  shows "cellAt (board (updateBoard (placeMove s r c))) r' c' =
     (if r' = r \<and> c' = c then Some (currentPlayer s)
      else if \<exists>p \<in> set (playHistory s). expires (turnCount s + 1) p \<and> row p = r' \<and> col p = c'
      then None else cellAt (board s) r' c')"
proof -
  let ?b1 = "setCell (board s) r c (Some (currentPlayer s))"
  have w1: "wf3 ?b1" using assms(1) by (rule wf3_setCell)
  have w2: "wf3 (snd (clearOld (turnCount s + 1) (playHistory s @ [newEntry s r c]) ?b1))"
    using w1 by (rule clearOld_wf3)
  show ?thesis
  proof (cases "r' = r \<and> c' = c")
    case True
    then show ?thesis using assms w2 by (simp add: updateBoard_placeMove cellAt_setCell)
  next
    case False
    then have "\<not> (row (newEntry s r c) = r' \<and> col (newEntry s r c) = c')"
      by (auto simp: newEntry_def)
    with False show ?thesis
      using assms w1 w2
      by (auto simp: updateBoard_placeMove cellAt_setCell clearOld_cell)
  qed
qed

lemma whoseTurn_Suc: "whoseTurn (t + 1) = otherPlayer (whoseTurn t)"
  by (simp add: whoseTurn_def otherPlayer_def)

lemma engineInv_no_entry:
  assumes "engineInv s" "inRange r c" "cellAt (board s) r c = None" "p \<in> set (playHistory s)"
  shows "\<not> (row p = r \<and> col p = c)"
proof
  assume "row p = r \<and> col p = c"
  with assms(1,2,4) have "cellAt (board s) r c = Some (player p)"
    unfolding engineInv_def by blast
  with assms(3) show False by simp
qed

lemma engineInv_move:
  assumes inv: "engineInv s" and rg: "inRange r c" and emp: "cellAt (board s) r c = None"
  shows "engineInv ((updateBoard (placeMove s r c))\<lparr>currentPlayer := otherPlayer (currentPlayer s)\<rparr>)"
proof -
  let ?tc = "turnCount s + 1"
  let ?h = "playHistory s"
  let ?new = "newEntry s r c"
  let ?s' = "updateBoard (placeMove s r c)"
  from inv have w: "wf3 (board s)" and tc0: "0 \<le> turnCount s"
    and cp: "currentPlayer s = whoseTurn (turnCount s)"
    and ok: "list_all (entryOk (turnCount s)) ?h"
    and srt: "sorted_wrt (\<lambda>p q. turn p < turn q) ?h"
    and dst: "distinct (map pos ?h)"
    and rel: "\<And>r c pl. inRange r c \<Longrightarrow>
            (cellAt (board s) r c = Some pl) =
            (\<exists>p \<in> set ?h. row p = r \<and> col p = c \<and> player p = pl)"
    unfolding engineInv_def by blast+
  have H: "playHistory ?s' = filter (keeps ?tc) ?h @ [?new]"
    and T: "turnCount ?s' = ?tc"
    using w rg by (simp_all add: updateBoard_placeMove)
  have W: "wf3 (board ?s')" using w rg by (rule updateBoard_placeMove_wf3)
  have fresh: "\<And>p. p \<in> set ?h \<Longrightarrow> \<not> (row p = r \<and> col p = c)"
    using engineInv_no_entry [OF inv rg emp] .
  have okp: "\<And>p. p \<in> set ?h \<Longrightarrow> entryOk (turnCount s) p"
    using ok by (simp add: list_all_iff)
  have i4a: "entryOk ?tc p" if "p \<in> set ?h" "keeps ?tc p" for p
    using okp [OF that(1)] that(2) by (simp add: entryOk_def keeps_def)
  have i4b: "entryOk ?tc ?new"
    using rg cp by (simp add: entryOk_def newEntry_def)
  have i4: "list_all (entryOk ?tc) (filter (keeps ?tc) ?h @ [?new])"
    using i4a i4b by (simp add: list_all_iff)
  have i5: "sorted_wrt (\<lambda>p q. turn p < turn q) (filter (keeps ?tc) ?h @ [?new])"
    using srt okp
    by (auto simp: sorted_wrt_append sorted_wrt_filter entryOk_def newEntry_def)
  have i6: "distinct (map pos (filter (keeps ?tc) ?h @ [?new]))"
    using dst fresh
    by (auto simp: distinct_map_filter pos_def newEntry_def)
  have i7: "(cellAt (board ?s') r' c' = Some pl) =
            (\<exists>p \<in> set (filter (keeps ?tc) ?h @ [?new]). row p = r' \<and> col p = c' \<and> player p = pl)"
    if rg': "inRange r' c'" for r' c' pl
  proof (cases "r' = r \<and> c' = c")
    case True
    then show ?thesis
      using w rg fresh by (auto simp: updateBoard_placeMove_cell newEntry_def)
  next
    case False
    note ne = this
    show ?thesis
    proof (cases "\<exists>p \<in> set ?h. expires ?tc p \<and> row p = r' \<and> col p = c'")
      case True
      then obtain q where q: "q \<in> set ?h" "expires ?tc q" "row q = r'" "col q = c'" by blast
      have "\<not> keeps ?tc p" if "p \<in> set ?h" "row p = r'" "col p = c'" for p
      proof -
        from that q dst have "p = q"
          by (auto simp: distinct_map inj_on_def pos_def)
        with q(2) show ?thesis by (simp add: keeps_def expires_def)
      qed
      with True ne show ?thesis
        using w rg rg' by (auto simp: updateBoard_placeMove_cell newEntry_def)
    next
      case False
      then have "keeps ?tc p" if "p \<in> set ?h" "row p = r'" "col p = c'" for p
        using that okp [of p] by (auto simp: keeps_def expires_def entryOk_def)
      with False ne show ?thesis
        using w rg rg' rel [OF rg', of pl]
        by (auto simp: updateBoard_placeMove_cell newEntry_def)
    qed
  qed
  show ?thesis
    unfolding engineInv_def
    using W tc0 cp i4 i5 i6 i7 H T
    by (simp add: whoseTurn_Suc)
qed

lemma cellAt_after_move:
  assumes "wf3 (board s)" "inRange r c"
  shows "cellAt (board (updateBoard (placeMove s r c))) r c = Some (currentPlayer s)"
  using assms by (simp add: updateBoard_placeMove_cell)

lemma checkWin_renderBoard: "checkWin (renderBoard s) r c = checkWin s r c"
  by (simp add: checkWin_def renderBoard_def cong: option.case_cong)

lemma checkWin_after_move:
  assumes "wf3 (board s)" "inRange r c"
  shows "checkWin (renderBoard (updateBoard (placeMove s r c))) r c =
         Inr (completesLine (board (updateBoard (placeMove s r c))) r c (currentPlayer s))"
  using assms
  by (simp add: checkWin_renderBoard checkWin_wf3 updateBoard_placeMove_wf3 cellAt_after_move)

lemma currentPlayer_after_move:
  assumes "wf3 (board s)" "inRange r c"
  shows "currentPlayer (renderBoard (updateBoard (placeMove s r c))) = currentPlayer s"
  using assms by (simp add: updateBoard_placeMove renderBoard_def)

lemma play_accepted:
  assumes "wf3 (board s)" "inRange r c" "cellAt (board s) r c = None"
  shows "play s r c =
     (if completesLine (board (updateBoard (placeMove s r c))) r c (currentPlayer s)
      then (Inr (Some (showPlayer (currentPlayer s) @ '' wins!'')),
            showWinner (currentPlayer s) (resetBoard (renderBoard (updateBoard (placeMove s r c)))))
      else (Inr None,
            (renderBoard (updateBoard (placeMove s r c)))
              \<lparr>currentPlayer := otherPlayer (currentPlayer s)\<rparr>))"
  using assms
  by (simp add: play_def isValidCell_wf3 checkWin_after_move currentPlayer_after_move
        Let_def otherPlayer_def)

lemma play_rejected:
  assumes "wf3 (board s)" "\<not> (inRange r c \<and> cellAt (board s) r c = None)"
  shows "snd (play s r c) = s"
  using assms by (auto simp: play_def isValidCell_wf3)

lemma engineInv_reset:
  assumes "board s = emptyBoard" "turnCount s = 0" "currentPlayer s = PlayerX" "playHistory s = []"
  shows "engineInv s"
proof -
  have "cellAt emptyBoard r c = None" if "inRange r c" for r c
  proof -
    from that have "(r = 0 \<or> r = 1 \<or> r = 2) \<and> (c = 0 \<or> c = 1 \<or> c = 2)"
      by (auto simp: inRange_def)
    then show ?thesis
      by (elim conjE disjE) (simp_all add: cellAt_def emptyBoard_def)
  qed
  with assms show ?thesis
    by (simp add: engineInv_def wf3_def whoseTurn_def emptyBoard_def [symmetric])
       (simp add: emptyBoard_def)
qed

lemma showWinner_engine:
  "board (showWinner w s) = board s" "turnCount (showWinner w s) = turnCount s"
  "currentPlayer (showWinner w s) = currentPlayer s" "playHistory (showWinner w s) = playHistory s"
  by (simp_all add: showWinner_def setTimeout_def clearTimeout_def Let_def split: option.splits)

lemma fire_engine:
  "board (fire t s) = board s" "turnCount (fire t s) = turnCount s"
  "currentPlayer (fire t s) = currentPlayer s" "playHistory (fire t s) = playHistory s"
  by (simp_all add: fire_def winnerCallback_def Let_def)

lemma resetBoard_engine:
  "board (resetBoard s) = emptyBoard" "turnCount (resetBoard s) = 0"
  "currentPlayer (resetBoard s) = PlayerX" "playHistory (resetBoard s) = []"
  by (simp_all add: resetBoard_def renderBoard_def setupBoard_def emptyBoard_def)

lemma engineInv_play:
  assumes "engineInv s"
  shows "engineInv (snd (play s r c))"
proof (cases "inRange r c \<and> cellAt (board s) r c = None")
  case False
  from assms have "wf3 (board s)" by (simp add: engineInv_def)
  with False assms show ?thesis by (simp add: play_rejected)
next
  case True
  from assms have w: "wf3 (board s)" by (simp add: engineInv_def)
  let ?s1 = "updateBoard (placeMove s r c)"
  show ?thesis
  proof (cases "completesLine (board ?s1) r c (currentPlayer s)")
    case True
    have "engineInv (showWinner (currentPlayer s) (resetBoard (renderBoard ?s1)))"
      by (rule engineInv_reset) (simp_all add: showWinner_engine resetBoard_engine)
    with True \<open>inRange r c \<and> cellAt (board s) r c = None\<close> w show ?thesis
      by (simp add: play_accepted)
  next
    case False
    have "engineInv (?s1\<lparr>currentPlayer := otherPlayer (currentPlayer s)\<rparr>)"
      using assms True by (simp add: engineInv_move)
    then have "engineInv ((renderBoard ?s1)\<lparr>currentPlayer := otherPlayer (currentPlayer s)\<rparr>)"
      by (simp add: engineInv_def renderBoard_def)
    with False True w show ?thesis
      by (simp add: play_accepted)
  qed
qed

lemma engineInv_constructor: "engineInv (constructor be)"
  by (rule engineInv_reset)
     (simp_all add: constructor_def init_def renderBoard_def setupBoard_def emptyBoard_def)

lemma reachable_engineInv: "reachable s \<Longrightarrow> engineInv s"
proof (induction rule: reachable.induct)
  case (reachable_constructor be)
  show ?case by (rule engineInv_constructor)
next
  case (reachable_play s r c)
  then show ?case by (simp add: engineInv_play)
next
  case (reachable_showWinner s w)
  then show ?case by (simp add: engineInv_def showWinner_engine)
next
  case (reachable_fire s t)
  then show ?case by (simp add: engineInv_def fire_engine)
qed

lemma reachable_playAll: "reachable s \<Longrightarrow> reachable (playAll s ms)"
  by (induction s ms rule: playAll.induct) (simp_all add: reachable_play)

lemma expired_is_opponent:
  assumes "entryOk tc p" "expires (tc + 1) p"
  shows "player p \<noteq> whoseTurn tc"
proof -
  from assms have "turn p = tc - 5" by (simp add: entryOk_def expires_def)
  with assms(1) show ?thesis by (auto simp: entryOk_def whoseTurn_def)
qed

lemma expiry_keeps_marks:
  assumes inv: "engineInv s" and rg: "inRange r c" and emp: "cellAt (board s) r c = None"
    and rg': "inRange r' c'"
  shows "(cellAt (board (updateBoard (placeMove s r c))) r' c' = Some (currentPlayer s)) =
         (cellAt (board (placeMove s r c)) r' c' = Some (currentPlayer s))"
proof -
  from inv have w: "wf3 (board s)" and cp: "currentPlayer s = whoseTurn (turnCount s)"
    and ok: "list_all (entryOk (turnCount s)) (playHistory s)"
    and rel: "\<And>r c pl. inRange r c \<Longrightarrow>
            (cellAt (board s) r c = Some pl) =
            (\<exists>p \<in> set (playHistory s). row p = r \<and> col p = c \<and> player p = pl)"
    unfolding engineInv_def by blast+
  have pm: "cellAt (board (placeMove s r c)) r' c' =
            (if r' = r \<and> c' = c then Some (currentPlayer s) else cellAt (board s) r' c')"
    using w rg rg' by (simp add: placeMove_eq cellAt_setCell)
  have ub: "cellAt (board (updateBoard (placeMove s r c))) r' c' =
     (if r' = r \<and> c' = c then Some (currentPlayer s)
      else if \<exists>p \<in> set (playHistory s). expires (turnCount s + 1) p \<and> row p = r' \<and> col p = c'
      then None else cellAt (board s) r' c')"
    using w rg rg' by (rule updateBoard_placeMove_cell)
  show ?thesis
  proof (cases "\<exists>p \<in> set (playHistory s). expires (turnCount s + 1) p \<and> row p = r' \<and> col p = c'")
    case False
    show ?thesis by (simp only: ub pm False if_False)
  next
    case True
    then obtain p where p: "p \<in> set (playHistory s)" "expires (turnCount s + 1) p"
      "row p = r'" "col p = c'" by blast
    from ok p(1) have "entryOk (turnCount s) p" by (simp add: list_all_iff)
    then have opp: "player p \<noteq> currentPlayer s"
      using p(2) cp by (simp add: expired_is_opponent)
    from rel [OF rg', of "player p"] p have "cellAt (board s) r' c' = Some (player p)" by blast
    with opp have "cellAt (board s) r' c' \<noteq> Some (currentPlayer s)" by simp
    then show ?thesis by (simp only: ub pm True if_True) auto
  qed
qed

lemma completesLine_cong:
  assumes "inRange r c"
    and "\<And>r' c'. inRange r' c' \<Longrightarrow> (cellAt b r' c' = Some p) = (cellAt b' r' c' = Some p)"
  shows "completesLine b r c p = completesLine b' r c p"
proof -
  from assms(1) have "inRange r 0" "inRange r 1" "inRange r 2" "inRange 0 c" "inRange 1 c"
    "inRange 2 c" "inRange 0 0" "inRange 1 1" "inRange 2 2" "inRange 0 2" "inRange 2 0"
    by (simp_all add: inRange_def)
  then show ?thesis
    unfolding completesLine_def by (simp add: assms(2))
qed

lemma completesLine_expiry:
  assumes "engineInv s" "inRange r c" "cellAt (board s) r c = None"
  shows "completesLine (board (updateBoard (placeMove s r c))) r c (currentPlayer s) =
         completesLine (board (placeMove s r c)) r c (currentPlayer s)"
  using assms(2) expiry_keeps_marks [OF assms] by (rule completesLine_cong)

lemma checkWin_placeMove:
  assumes "wf3 (board s)" "inRange r c"
  shows "checkWin (placeMove s r c) r c =
         Inr (completesLine (board (placeMove s r c)) r c (currentPlayer s))"
proof -
  have "wf3 (board (placeMove s r c))" using assms(1) by (simp add: placeMove_eq wf3_setCell)
  moreover have "cellAt (board (placeMove s r c)) r c = Some (currentPlayer s)"
    using assms by (simp add: placeMove_eq cellAt_setCell)
  ultimately show ?thesis using assms(2) by (simp add: checkWin_wf3)
qed

lemma history_length_le:
  assumes "list_all (entryOk tc) h" "sorted_wrt (\<lambda>p q. turn p < turn q) h"
  shows "length h \<le> 5"
proof -
  have s: "sorted_wrt (<) (map turn h)" using assms(2) by (simp add: sorted_wrt_map)
  then have d: "distinct (map turn h)" by (simp add: strict_sorted_iff)
  have "set (map turn h) \<subseteq> {tc - 6 <..< tc}"
    using assms(1) by (auto simp: list_all_iff entryOk_def)
  then have "card (set (map turn h)) \<le> card {tc - 6 <..< tc}"
    by (intro card_mono) simp_all
  also have "\<dots> = 5" by simp
  finally show ?thesis using distinct_card [OF d] by simp
qed

lemma concat_wf3:
  assumes "wf3 b"
  shows "concat b = map (\<lambda>(r, c). cellAt b r c) allCells"
proof -
  from assms obtain a0 a1 a2 b0 b1 b2 c0 c1 c2
    where b: "b = [[a0, a1, a2], [b0, b1, b2], [c0, c1, c2]]"
    using wf3_explicit by blast
  show ?thesis by (simp add: b allCells_def cellAt_def)
qed

lemma set_allCells: "set allCells = {(r, c). inRange r c}"
proof -
  have "(r, c) \<in> set allCells" if "inRange r c" for r c
  proof -
    from that have "(r = 0 \<or> r = 1 \<or> r = 2) \<and> (c = 0 \<or> c = 1 \<or> c = 2)"
      by (auto simp: inRange_def)
    then show ?thesis by (elim conjE disjE) (simp_all add: allCells_def)
  qed
  moreover have "inRange r c" if "(r, c) \<in> set allCells" for r c
    using that by (auto simp: allCells_def inRange_def)
  ultimately show ?thesis by auto
qed

lemma distinct_allCells: "distinct allCells"
  by (simp add: allCells_def)

lemma occupied_eq_length:
  assumes "engineInv s"
  shows "occupied (board s) = length (playHistory s)"
proof -
  from assms have w: "wf3 (board s)"
    and ok: "list_all (entryOk (turnCount s)) (playHistory s)"
    and dst: "distinct (map pos (playHistory s))"
    and rel: "\<And>r c pl. inRange r c \<Longrightarrow>
            (cellAt (board s) r c = Some pl) =
            (\<exists>p \<in> set (playHistory s). row p = r \<and> col p = c \<and> player p = pl)"
    unfolding engineInv_def by blast+
  let ?P = "\<lambda>x. cellAt (board s) (fst x) (snd x) \<noteq> None"
  have "occupied (board s) = length (filter ?P allCells)"
    by (simp add: occupied_def concat_wf3 [OF w] filter_map o_def split_beta)
  also have "\<dots> = card ({x. ?P x} \<inter> set allCells)"
    using distinct_allCells by (rule distinct_length_filter)
  also have "{x. ?P x} \<inter> set allCells = set (map pos (playHistory s))"
  proof (intro equalityI subsetI)
    fix x assume "x \<in> {x. ?P x} \<inter> set allCells"
    then have rg: "inRange (fst x) (snd x)" and "?P x"
      by (auto simp: set_allCells)
    then obtain pl where "cellAt (board s) (fst x) (snd x) = Some pl" by auto
    with rel [OF rg, of pl] obtain p where "p \<in> set (playHistory s)" "row p = fst x" "col p = snd x"
      by blast
    then have "x = pos p" by (simp add: pos_def)
    with \<open>p \<in> set (playHistory s)\<close> show "x \<in> set (map pos (playHistory s))" by simp
  next
    fix x assume "x \<in> set (map pos (playHistory s))"
    then obtain p where p: "p \<in> set (playHistory s)" "x = pos p" by auto
    with ok have rg: "inRange (fst x) (snd x)"
      by (simp add: list_all_iff entryOk_def pos_def)
    from rel [OF rg, of "player p"] p have "cellAt (board s) (fst x) (snd x) = Some (player p)"
      by (auto simp: pos_def)
    with rg show "x \<in> {x. ?P x} \<inter> set allCells"
      by (cases x) (simp add: set_allCells)
  qed
  also have "card (set (map pos (playHistory s))) = length (playHistory s)"
    using distinct_card [OF dst] by simp
  finally show ?thesis .
qed

lemma filter_unique:
  assumes "distinct (map f xs)" "x \<in> set xs"
  shows "filter (\<lambda>y. f y = f x) xs = [x]"
  using assms
proof (induction xs)
  case Nil
  then show ?case by simp
next
  case (Cons a xs)
  show ?case
  proof (cases "a = x")
    case True
    with Cons.prems have "f x \<notin> f ` set xs" by simp
    then have "\<forall>y \<in> set xs. f y \<noteq> f x" by (metis imageI)
    then have "filter (\<lambda>y. f y = f x) xs = []" by (simp add: filter_empty_conv)
    with True show ?thesis by simp
  next
    case False
    with Cons.prems have "x \<in> set xs" "f a \<noteq> f x" by auto
    with Cons show ?thesis by simp
  qed
qed

lemma timerInv_timeouts:
  assumes "timerInv s"
  shows "winnerTimeoutId s = None \<Longrightarrow> timeouts s = []"
    and "winnerTimeoutId s = Some h \<Longrightarrow> \<exists>t. timeouts s = [t] \<and> handle t = h"
  using assms by (auto simp: timerInv_def)

lemma clearTimeout_pending:
  assumes "timerInv s" "winnerTimeoutId s = Some h"
  shows "timeouts (clearTimeout h s) = []"
  using timerInv_timeouts(2) [OF assms] by (auto simp: clearTimeout_def)

lemma showWinner_timeouts:
  assumes "timerInv s"
  shows "timeouts (showWinner w s) =
           [\<lparr>handle = nextTimeoutId s, delay = 2000,
             message = WinnerMessage (nextNodeId s) (showPlayer w @ '' wins!'')\<rparr>]"
    and "winnerTimeoutId (showWinner w s) = Some (nextTimeoutId s)"
proof -
  show "winnerTimeoutId (showWinner w s) = Some (nextTimeoutId s)"
    by (simp add: showWinner_def setTimeout_def clearTimeout_def Let_def split: option.splits)
  show "timeouts (showWinner w s) =
           [\<lparr>handle = nextTimeoutId s, delay = 2000,
             message = WinnerMessage (nextNodeId s) (showPlayer w @ '' wins!'')\<rparr>]"
  proof (cases "winnerTimeoutId s")
    case None
    with assms have "timeouts s = []" by (simp add: timerInv_timeouts)
    with None show ?thesis by (simp add: showWinner_def setTimeout_def Let_def)
  next
    case (Some h)
    with assms have "timeouts (clearTimeout h s) = []" by (rule clearTimeout_pending)
    with Some show ?thesis
      by (simp add: showWinner_def setTimeout_def Let_def) (simp add: clearTimeout_def)
  qed
qed

lemma timerInv_showWinner: "timerInv s \<Longrightarrow> timerInv (showWinner w s)"
  by (simp add: timerInv_def [of "showWinner w s"] showWinner_timeouts)

lemma timerInv_fire:
  assumes "timerInv s" "t \<in> set (timeouts s)"
  shows "timerInv (fire t s)"
proof -
  from assms have "timeouts s = [t]"
    by (cases "winnerTimeoutId s") (auto dest: timerInv_timeouts)
  then show ?thesis
    by (simp add: timerInv_def fire_def winnerCallback_def Let_def)
qed

lemma timerInv_play:
  assumes "timerInv s" "wf3 (board s)"
  shows "timerInv (snd (play s r c))"
proof (cases "inRange r c \<and> cellAt (board s) r c = None")
  case False
  with assms show ?thesis by (simp add: play_rejected)
next
  case True
  let ?s1 = "renderBoard (updateBoard (placeMove s r c))"
  have t: "timeouts ?s1 = timeouts s" "winnerTimeoutId ?s1 = winnerTimeoutId s"
    using assms(2) True by (simp_all add: updateBoard_placeMove renderBoard_def)
  then have i1: "timerInv ?s1" using assms(1) by (simp add: timerInv_def)
  then have "timerInv (resetBoard ?s1)"
    by (simp add: timerInv_def resetBoard_def renderBoard_def setupBoard_def)
  then have "timerInv (showWinner (currentPlayer s) (resetBoard ?s1))"
    by (rule timerInv_showWinner)
  moreover have "timerInv (?s1\<lparr>currentPlayer := otherPlayer (currentPlayer s)\<rparr>)"
    using i1 by (simp add: timerInv_def)
  ultimately show ?thesis
    using assms(2) True by (simp add: play_accepted)
qed

lemma timerInv_constructor: "timerInv (constructor be)"
  by (simp add: timerInv_def constructor_def init_def renderBoard_def setupBoard_def)

lemma reachable_timerInv: "reachable s \<Longrightarrow> timerInv s"
proof (induction rule: reachable.induct)
  case (reachable_constructor be)
  show ?case by (rule timerInv_constructor)
next
  case (reachable_play s r c)
  then show ?case by (simp add: timerInv_play reachable_engineInv [unfolded engineInv_def])
next
  case (reachable_showWinner s w)
  then show ?case by (simp add: timerInv_showWinner)
next
  case (reachable_fire s t)
  then show ?case by (simp add: timerInv_fire)
qed

section \<open>The claims\<close>

text \<open>
  Claim C1. On an engine in a reachable state, let \<open>play s r c\<close> be an accepted move:
  \<open>(r, c)\<close> is a valid cell and it is empty. If on the board with the mark just placed the
  cell \<open>(r, c)\<close> completes a line of the player who moves (row, column, main diagonal when
  \<open>r = c\<close>, anti-diagonal when \<open>r + c = 2\<close>), then \<open>play\<close> returns the string \<open>X wins!\<close>
  when X moved and \<open>O wins!\<close> when O moved, and the engine state after the call is the initial
  one: the empty board, X to move, turn counter \<open>0\<close>, empty history. In particular the calls
  \<open>(0,0), (1,0), (0,1), (1,1), (0,2)\<close> on a fresh engine end with \<open>X wins!\<close> and that state;
  and when X plays \<open>(2,2)\<close> instead of \<open>(0,2)\<close>, the call \<open>(1,2)\<close> of O ends with
  \<open>O wins!\<close> and that state. The witness is that win of O, and the diagonal game of the tests.
\<close>

theorem play_win_resets:
  "(\<forall>s r c. reachable s \<longrightarrow> isValidCell s r c \<longrightarrow> cellAt (board s) r c = None \<longrightarrow>
      completesLine (board (placeMove s r c)) r c (currentPlayer s) \<longrightarrow>
        fst (play s r c)
          = Inr (Some (if currentPlayer s = PlayerX then ''X wins!'' else ''O wins!'')) \<and>
        engineState (snd (play s r c)) = (emptyBoard, PlayerX, 0, []))
   \<and> (\<forall>be. fst (play (playAll (constructor be) [(0, 0), (1, 0), (0, 1), (1, 1)]) 0 2)
              = Inr (Some ''X wins!'')
          \<and> engineState (snd (play (playAll (constructor be) [(0, 0), (1, 0), (0, 1), (1, 1)]) 0 2))
              = (emptyBoard, PlayerX, 0, []))
   \<and> (\<forall>be. fst (play (playAll (constructor be) [(0, 0), (1, 0), (0, 1), (1, 1), (2, 2)]) 1 2)
              = Inr (Some ''O wins!'')
          \<and> engineState (snd (play (playAll (constructor be) [(0, 0), (1, 0), (0, 1), (1, 1), (2, 2)]) 1 2))
              = (emptyBoard, PlayerX, 0, []))"
proof (intro conjI allI impI)
  fix s r c
  assume r: "reachable s" and v: "isValidCell s r c" and e: "cellAt (board s) r c = None"
    and l: "completesLine (board (placeMove s r c)) r c (currentPlayer s)"
  from r have inv: "engineInv s" by (rule reachable_engineInv)
  then have w: "wf3 (board s)" by (simp add: engineInv_def)
  with v have rg: "inRange r c" by (simp add: isValidCell_wf3)
  from l have l': "completesLine (board (updateBoard (placeMove s r c))) r c (currentPlayer s)"
    by (simp add: completesLine_expiry [OF inv rg e])
  have n: "showPlayer (currentPlayer s) @ '' wins!''
           = (if currentPlayer s = PlayerX then ''X wins!'' else ''O wins!'')"
    by (cases "currentPlayer s") simp_all
  show "fst (play s r c)
          = Inr (Some (if currentPlayer s = PlayerX then ''X wins!'' else ''O wins!''))"
    using w rg e l' by (simp add: play_accepted n)
  show "engineState (snd (play s r c)) = (emptyBoard, PlayerX, 0, [])"
    using w rg e l' by (simp add: play_accepted engineState_def showWinner_engine resetBoard_engine)
next
  fix be
  show "fst (play (playAll (constructor be) [(0, 0), (1, 0), (0, 1), (1, 1)]) 0 2)
          = Inr (Some ''X wins!'')"
    by code_simp
  show "engineState (snd (play (playAll (constructor be) [(0, 0), (1, 0), (0, 1), (1, 1)]) 0 2))
          = (emptyBoard, PlayerX, 0, [])"
    by code_simp
next
  fix be
  show "fst (play (playAll (constructor be) [(0, 0), (1, 0), (0, 1), (1, 1), (2, 2)]) 1 2)
          = Inr (Some ''O wins!'')"
    by code_simp
  show "engineState (snd (play (playAll (constructor be) [(0, 0), (1, 0), (0, 1), (1, 1), (2, 2)]) 1 2))
          = (emptyBoard, PlayerX, 0, [])"
    by code_simp
qed

theorem play_win_resets_witness:
  "reachable (playAll (constructor []) [(0, 0), (1, 0), (0, 1), (1, 1), (2, 2)])
   \<and> isValidCell (playAll (constructor []) [(0, 0), (1, 0), (0, 1), (1, 1), (2, 2)]) 1 2
   \<and> cellAt (board (playAll (constructor []) [(0, 0), (1, 0), (0, 1), (1, 1), (2, 2)])) 1 2 = None
   \<and> currentPlayer (playAll (constructor []) [(0, 0), (1, 0), (0, 1), (1, 1), (2, 2)]) = PlayerO
   \<and> completesLine (board (placeMove (playAll (constructor []) [(0, 0), (1, 0), (0, 1), (1, 1), (2, 2)]) 1 2))
        1 2 PlayerO
   \<and> fst (play (playAll (constructor []) [(0, 0), (1, 0), (0, 1), (1, 1), (2, 2)]) 1 2)
        = Inr (Some ''O wins!'')
   \<and> engineState (snd (play (playAll (constructor []) [(0, 0), (1, 0), (0, 1), (1, 1), (2, 2)]) 1 2))
        = (emptyBoard, PlayerX, 0, [])
   \<and> reachable (playAll (constructor []) [(0, 0), (0, 1), (1, 1), (1, 0)])
   \<and> isValidCell (playAll (constructor []) [(0, 0), (0, 1), (1, 1), (1, 0)]) 2 2
   \<and> cellAt (board (playAll (constructor []) [(0, 0), (0, 1), (1, 1), (1, 0)])) 2 2 = None
   \<and> currentPlayer (playAll (constructor []) [(0, 0), (0, 1), (1, 1), (1, 0)]) = PlayerX
   \<and> completesLine (board (placeMove (playAll (constructor []) [(0, 0), (0, 1), (1, 1), (1, 0)]) 2 2))
        2 2 PlayerX
   \<and> fst (play (playAll (constructor []) [(0, 0), (0, 1), (1, 1), (1, 0)]) 2 2)
        = Inr (Some ''X wins!'')
   \<and> engineState (snd (play (playAll (constructor []) [(0, 0), (0, 1), (1, 1), (1, 0)]) 2 2))
        = (emptyBoard, PlayerX, 0, [])"
proof -
  let ?o = "playAll (constructor []) [(0, 0), (1, 0), (0, 1), (1, 1), (2, 2)]"
  have ro: "reachable ?o" by (intro reachable_playAll reachable_constructor)
  have vo: "isValidCell ?o 1 2" by code_simp
  have eo: "cellAt (board ?o) 1 2 = None" by code_simp
  have po: "currentPlayer ?o = PlayerO" by code_simp
  have lo: "completesLine (board (placeMove ?o 1 2)) 1 2 PlayerO" by code_simp
  from lo po have lo': "completesLine (board (placeMove ?o 1 2)) 1 2 (currentPlayer ?o)"
    by (simp only:)
  from play_win_resets ro vo eo lo'
  have "fst (play ?o 1 2)
          = Inr (Some (if currentPlayer ?o = PlayerX then ''X wins!'' else ''O wins!'')) \<and>
        engineState (snd (play ?o 1 2)) = (emptyBoard, PlayerX, 0, [])"
    by blast
  then have co: "fst (play ?o 1 2) = Inr (Some ''O wins!'')"
    and eo2: "engineState (snd (play ?o 1 2)) = (emptyBoard, PlayerX, 0, [])"
    unfolding po by simp_all
  let ?x = "playAll (constructor []) [(0, 0), (0, 1), (1, 1), (1, 0)]"
  have rx: "reachable ?x" by (intro reachable_playAll reachable_constructor)
  have vx: "isValidCell ?x 2 2" by code_simp
  have ex: "cellAt (board ?x) 2 2 = None" by code_simp
  have px: "currentPlayer ?x = PlayerX" by code_simp
  have lx: "completesLine (board (placeMove ?x 2 2)) 2 2 PlayerX" by code_simp
  from lx px have lx': "completesLine (board (placeMove ?x 2 2)) 2 2 (currentPlayer ?x)"
    by (simp only:)
  from play_win_resets rx vx ex lx'
  have "fst (play ?x 2 2)
          = Inr (Some (if currentPlayer ?x = PlayerX then ''X wins!'' else ''O wins!'')) \<and>
        engineState (snd (play ?x 2 2)) = (emptyBoard, PlayerX, 0, [])"
    by blast
  then have cx: "fst (play ?x 2 2) = Inr (Some ''X wins!'')"
    and ex2: "engineState (snd (play ?x 2 2)) = (emptyBoard, PlayerX, 0, [])"
    unfolding px by simp_all
  from ro vo eo po lo co eo2 rx vx ex px lx cx ex2 show ?thesis by (simp only: simp_thms)
qed

text \<open>
  Claim C2. In every accepted move on an engine in a reachable state, once the turn counter has
  gone up and \<open>updateBoard\<close> has run, the history is the history with the new entry pushed,
  without the entries whose turn lies six or more behind the counter. Every entry of the
  history with the new entry pushed is on the board; if its turn lies six or more behind, it is
  no longer in the history and its cell is empty; otherwise it is still in the history and
  its cell holds its player. When the move does not win, this board and this history are the
  ones \<open>play\<close> leaves behind (a winning move then resets the engine, as claim C1 says).
\<close>

theorem expiry_after_move:
  assumes "reachable s" "isValidCell s r c" "cellAt (board s) r c = None"
  shows "turnCount (updateBoard (placeMove s r c)) = turnCount s + 1
    \<and> playHistory (updateBoard (placeMove s r c)) =
        filter (\<lambda>p. turnCount s + 1 - turn p < 6) (playHistory (placeMove s r c))
    \<and> (\<forall>p \<in> set (playHistory (placeMove s r c)).
          inRange (row p) (col p) \<and>
          (if turnCount s + 1 - turn p \<ge> 6
           then p \<notin> set (playHistory (updateBoard (placeMove s r c)))
                \<and> cellAt (board (updateBoard (placeMove s r c))) (row p) (col p) = None
           else p \<in> set (playHistory (updateBoard (placeMove s r c)))
                \<and> cellAt (board (updateBoard (placeMove s r c))) (row p) (col p) = Some (player p)))
    \<and> (fst (play s r c) = Inr None \<longrightarrow>
          board (snd (play s r c)) = board (updateBoard (placeMove s r c))
          \<and> playHistory (snd (play s r c)) = playHistory (updateBoard (placeMove s r c))
          \<and> turnCount (snd (play s r c)) = turnCount s + 1)"
proof -
  let ?tc = "turnCount s + 1"
  let ?h = "playHistory s"
  let ?new = "newEntry s r c"
  let ?s' = "updateBoard (placeMove s r c)"
  from assms(1) have inv: "engineInv s" by (rule reachable_engineInv)
  then have w: "wf3 (board s)"
    and ok: "list_all (entryOk (turnCount s)) ?h"
    and dst: "distinct (map pos ?h)"
    and rel: "\<And>r c pl. inRange r c \<Longrightarrow>
            (cellAt (board s) r c = Some pl) =
            (\<exists>p \<in> set ?h. row p = r \<and> col p = c \<and> player p = pl)"
    unfolding engineInv_def by blast+
  from w assms(2) have rg: "inRange r c" by (simp add: isValidCell_wf3)
  have fresh: "\<And>p. p \<in> set ?h \<Longrightarrow> \<not> (row p = r \<and> col p = c)"
    using engineInv_no_entry [OF inv rg assms(3)] .
  have okp: "\<And>p. p \<in> set ?h \<Longrightarrow> inRange (row p) (col p)"
    using ok by (simp add: list_all_iff entryOk_def)
  have hp: "playHistory (placeMove s r c) = ?h @ [?new]" by (simp add: placeMove_eq)
  have H: "playHistory ?s' = filter (keeps ?tc) ?h @ [?new]"
    and T: "turnCount ?s' = ?tc"
    using w rg by (simp_all add: updateBoard_placeMove)
  have kf: "filter (keeps ?tc) ?h = filter (\<lambda>p. ?tc - turn p < 6) ?h"
    using okp by (intro filter_cong) (simp_all add: keeps_def)
  have c2: "playHistory ?s' = filter (\<lambda>p. ?tc - turn p < 6) (playHistory (placeMove s r c))"
    by (simp add: H hp kf newEntry_def)
  have c3: "inRange (row p) (col p) \<and>
          (if ?tc - turn p \<ge> 6
           then p \<notin> set (playHistory ?s') \<and> cellAt (board ?s') (row p) (col p) = None
           else p \<in> set (playHistory ?s') \<and> cellAt (board ?s') (row p) (col p) = Some (player p))"
    if p: "p \<in> set (playHistory (placeMove s r c))" for p
  proof (cases "p = ?new")
    case True
    have "cellAt (board ?s') r c = Some (currentPlayer s)"
      using w rg by (rule cellAt_after_move)
    with True rg show ?thesis
      by (simp add: c2 hp newEntry_def)
  next
    case False
    with p have ph: "p \<in> set ?h" by (simp add: hp)
    then have prg: "inRange (row p) (col p)" by (rule okp)
    from fresh [OF ph] have ne: "\<not> (row p = r \<and> col p = c)" .
    have cell: "cellAt (board s) (row p) (col p) = Some (player p)"
      using rel [OF prg, of "player p"] ph by blast
    show ?thesis
    proof (cases "?tc - turn p \<ge> 6")
      case True
      then have "expires ?tc p" using prg by (simp add: expires_def)
      with ph have "\<exists>q \<in> set ?h. expires ?tc q \<and> row q = row p \<and> col q = col p" by blast
      then have "cellAt (board ?s') (row p) (col p) = None"
        using ne by (auto simp: updateBoard_placeMove_cell [OF w rg prg])
      with True prg show ?thesis by (simp add: c2)
    next
      case False
      have "\<not> expires ?tc q" if "q \<in> set ?h" "row q = row p" "col q = col p" for q
      proof -
        from that ph dst have "q = p" by (auto simp: distinct_map inj_on_def pos_def)
        with False show ?thesis by (simp add: expires_def)
      qed
      then have "\<not> (\<exists>q \<in> set ?h. expires ?tc q \<and> row q = row p \<and> col q = col p)" by blast
      then have "cellAt (board ?s') (row p) (col p) = Some (player p)"
        using ne cell by (auto simp: updateBoard_placeMove_cell [OF w rg prg])
      with False prg p show ?thesis by (simp add: c2)
    qed
  qed
  have c4: "board (snd (play s r c)) = board ?s' \<and> playHistory (snd (play s r c)) = playHistory ?s'
          \<and> turnCount (snd (play s r c)) = ?tc"
    if "fst (play s r c) = Inr None"
    using that w rg assms(3) T
    by (simp add: play_accepted renderBoard_def split: if_splits)
  from T c2 c3 c4 show ?thesis by blast
qed

theorem expiry_after_move_witness:
  "reachable (playAll (constructor []) [(0, 0), (0, 1), (0, 2), (1, 0), (1, 1)])
   \<and> isValidCell (playAll (constructor []) [(0, 0), (0, 1), (0, 2), (1, 0), (1, 1)]) 1 2
   \<and> cellAt (board (playAll (constructor []) [(0, 0), (0, 1), (0, 2), (1, 0), (1, 1)])) 1 2 = None
   \<and> \<lparr>player = PlayerX, row = 0, col = 0, turn = 0\<rparr>
        \<in> set (playHistory (placeMove (playAll (constructor []) [(0, 0), (0, 1), (0, 2), (1, 0), (1, 1)]) 1 2))
   \<and> turnCount (updateBoard (placeMove (playAll (constructor []) [(0, 0), (0, 1), (0, 2), (1, 0), (1, 1)]) 1 2)) = 6
   \<and> \<lparr>player = PlayerX, row = 0, col = 0, turn = 0\<rparr>
        \<notin> set (playHistory (updateBoard (placeMove (playAll (constructor []) [(0, 0), (0, 1), (0, 2), (1, 0), (1, 1)]) 1 2)))
   \<and> cellAt (board (updateBoard (placeMove (playAll (constructor []) [(0, 0), (0, 1), (0, 2), (1, 0), (1, 1)]) 1 2))) 0 0 = None"
proof -
  let ?s = "playAll (constructor []) [(0, 0), (0, 1), (0, 2), (1, 0), (1, 1)]"
  let ?p = "\<lparr>player = PlayerX, row = 0, col = 0, turn = 0\<rparr>"
  have r: "reachable ?s" by (intro reachable_playAll reachable_constructor)
  have v: "isValidCell ?s 1 2" by code_simp
  have e: "cellAt (board ?s) 1 2 = None" by code_simp
  have m: "?p \<in> set (playHistory (placeMove ?s 1 2))" by code_simp
  have t: "turnCount ?s + 1 = 6" by code_simp
  note th = expiry_after_move [OF r v e]
  from th have c1: "turnCount (updateBoard (placeMove ?s 1 2)) = turnCount ?s + 1" by blast
  from th m have "if turnCount ?s + 1 - turn ?p \<ge> 6
           then ?p \<notin> set (playHistory (updateBoard (placeMove ?s 1 2)))
                \<and> cellAt (board (updateBoard (placeMove ?s 1 2))) (row ?p) (col ?p) = None
           else ?p \<in> set (playHistory (updateBoard (placeMove ?s 1 2)))
                \<and> cellAt (board (updateBoard (placeMove ?s 1 2))) (row ?p) (col ?p) = Some (player ?p)"
    by blast
  then have c3: "?p \<notin> set (playHistory (updateBoard (placeMove ?s 1 2)))
                \<and> cellAt (board (updateBoard (placeMove ?s 1 2))) 0 0 = None"
    unfolding t by simp
  from c1 t have c1': "turnCount (updateBoard (placeMove ?s 1 2)) = 6" by (simp only:)
  from r v e m c1' c3 show ?thesis by (simp only: simp_thms)
qed

text \<open>
  Claim C3. In the code \<open>checkWin\<close> runs after \<open>updateBoard\<close>, on the board from which
  this call has already cleared the aged-out cells. For every accepted move on an engine in a
  reachable state its verdict is the verdict on the board immediately after the mark is
  placed, and that verdict decides what \<open>play\<close> returns: the clearing of this call never
  changes whether the move is a win. (The only entries a call ages out are five turns older
  than the move, so they are the opponent's.) In the witness the call clears a cell, so the
  two boards differ, and the move wins.
\<close>

theorem win_check_unchanged_by_expiry:
  assumes "reachable s" "isValidCell s r c" "cellAt (board s) r c = None"
  shows "checkWin (renderBoard (updateBoard (placeMove s r c))) r c = checkWin (placeMove s r c) r c
    \<and> fst (play s r c) =
        (if checkWin (placeMove s r c) r c = Inr True
         then Inr (Some (showPlayer (currentPlayer s) @ '' wins!'')) else Inr None)"
proof -
  from assms(1) have inv: "engineInv s" by (rule reachable_engineInv)
  then have w: "wf3 (board s)" by (simp add: engineInv_def)
  with assms(2) have rg: "inRange r c" by (simp add: isValidCell_wf3)
  have eq: "checkWin (renderBoard (updateBoard (placeMove s r c))) r c = checkWin (placeMove s r c) r c"
    using w rg by (simp add: checkWin_after_move checkWin_placeMove completesLine_expiry [OF inv rg assms(3)])
  moreover have "fst (play s r c) =
        (if checkWin (placeMove s r c) r c = Inr True
         then Inr (Some (showPlayer (currentPlayer s) @ '' wins!'')) else Inr None)"
    using w rg assms(3)
    by (simp add: play_accepted checkWin_placeMove completesLine_expiry [OF inv rg assms(3)])
  ultimately show ?thesis by blast
qed

theorem win_check_unchanged_by_expiry_witness:
  "reachable (playAll (constructor []) [(0, 0), (0, 1), (0, 2), (1, 0), (1, 1), (1, 2)])
   \<and> isValidCell (playAll (constructor []) [(0, 0), (0, 1), (0, 2), (1, 0), (1, 1), (1, 2)]) 2 0
   \<and> cellAt (board (playAll (constructor []) [(0, 0), (0, 1), (0, 2), (1, 0), (1, 1), (1, 2)])) 2 0 = None
   \<and> board (updateBoard (placeMove (playAll (constructor []) [(0, 0), (0, 1), (0, 2), (1, 0), (1, 1), (1, 2)]) 2 0))
       \<noteq> board (placeMove (playAll (constructor []) [(0, 0), (0, 1), (0, 2), (1, 0), (1, 1), (1, 2)]) 2 0)
   \<and> checkWin (renderBoard (updateBoard (placeMove
         (playAll (constructor []) [(0, 0), (0, 1), (0, 2), (1, 0), (1, 1), (1, 2)]) 2 0))) 2 0
       = checkWin (placeMove (playAll (constructor []) [(0, 0), (0, 1), (0, 2), (1, 0), (1, 1), (1, 2)]) 2 0) 2 0
   \<and> fst (play (playAll (constructor []) [(0, 0), (0, 1), (0, 2), (1, 0), (1, 1), (1, 2)]) 2 0)
       = Inr (Some ''X wins!'')"
proof -
  let ?s = "playAll (constructor []) [(0, 0), (0, 1), (0, 2), (1, 0), (1, 1), (1, 2)]"
  have r: "reachable ?s" by (intro reachable_playAll reachable_constructor)
  have v: "isValidCell ?s 2 0" by code_simp
  have e: "cellAt (board ?s) 2 0 = None" by code_simp
  have d: "board (updateBoard (placeMove ?s 2 0)) \<noteq> board (placeMove ?s 2 0)" by code_simp
  have cw: "checkWin (placeMove ?s 2 0) 2 0 = Inr True" by code_simp
  have n: "showPlayer (currentPlayer ?s) @ '' wins!'' = ''X wins!''" by code_simp
  note th = win_check_unchanged_by_expiry [OF r v e]
  from th have c1: "checkWin (renderBoard (updateBoard (placeMove ?s 2 0))) 2 0
                    = checkWin (placeMove ?s 2 0) 2 0" by blast
  from th have "fst (play ?s 2 0) =
        (if checkWin (placeMove ?s 2 0) 2 0 = Inr True
         then Inr (Some (showPlayer (currentPlayer ?s) @ '' wins!'')) else Inr None)" by blast
  then have c2: "fst (play ?s 2 0) = Inr (Some ''X wins!'')"
    unfolding cw n by (simp only: if_True simp_thms)
  from r v e d c1 c2 show ?thesis by (simp only: simp_thms)
qed

text \<open>
  Claim C4. For every engine state with a board of three by three and a turn counter from
  \<open>-2^53\<close> to \<open>2^53 - 1\<close> (where the increment of the code is exact), and every \<open>(r, c)\<close> in
  range whose cell is empty: if the win check of the move fails, \<open>play\<close> returns no value,
  the cell \<open>(r, c)\<close> holds the player who was current before the call, the history is the
  entries of the old history that did not age out followed by exactly one new entry (that
  player, \<open>r\<close>, \<open>c\<close>, the turn counter before the call), the turn counter is one more, and
  the current player is the other one.
\<close>

theorem play_legal_move:
  assumes "wf3 (board s)" "inRange r c" "cellAt (board s) r c = None"
    and "checkWin (renderBoard (updateBoard (placeMove s r c))) r c \<noteq> Inr True"
    and "- (2 ^ 53) \<le> turnCount s" "turnCount s < 2 ^ 53"
  shows "fst (play s r c) = Inr None
    \<and> cellAt (board (snd (play s r c))) r c = Some (currentPlayer s)
    \<and> playHistory (snd (play s r c)) =
        filter (keeps (turnCount s + 1)) (playHistory s) @
        [\<lparr>player = currentPlayer s, row = r, col = c, turn = turnCount s\<rparr>]
    \<and> turnCount (snd (play s r c)) = turnCount s + 1
    \<and> currentPlayer (snd (play s r c)) = (if currentPlayer s = PlayerX then PlayerO else PlayerX)"
proof -
  from assms(4) have nw: "\<not> completesLine (board (updateBoard (placeMove s r c))) r c (currentPlayer s)"
    using assms(1,2) by (simp add: checkWin_after_move)
  have p: "play s r c = (Inr None, (renderBoard (updateBoard (placeMove s r c)))
              \<lparr>currentPlayer := otherPlayer (currentPlayer s)\<rparr>)"
    using assms(1-3) nw by (simp add: play_accepted)
  have "cellAt (board (updateBoard (placeMove s r c))) r c = Some (currentPlayer s)"
    using assms(1,2) by (rule cellAt_after_move)
  then show ?thesis
    using assms(1,2)
    by (simp add: p renderBoard_def updateBoard_placeMove newEntry_def otherPlayer_def)
qed

theorem play_legal_move_witness:
  "wf3 (board (playAll (constructor []) [(0, 0)])) \<and> inRange 1 1
   \<and> cellAt (board (playAll (constructor []) [(0, 0)])) 1 1 = None
   \<and> checkWin (renderBoard (updateBoard (placeMove (playAll (constructor []) [(0, 0)]) 1 1))) 1 1
       \<noteq> Inr True
   \<and> - (2 ^ 53) \<le> turnCount (playAll (constructor []) [(0, 0)])
   \<and> turnCount (playAll (constructor []) [(0, 0)]) < 2 ^ 53
   \<and> play (playAll (constructor []) [(0, 0)]) 1 1 =
       (Inr None,
        \<lparr>board = [[Some PlayerX, None, None], [None, Some PlayerO, None], [None, None, None]],
         currentPlayer = PlayerX, turnCount = 2,
         playHistory = [\<lparr>player = PlayerX, row = 0, col = 0, turn = 0\<rparr>,
                        \<lparr>player = PlayerO, row = 1, col = 1, turn = 1\<rparr>],
         boardElement = [RowElement [Some PlayerX, None, None],
                         RowElement [None, Some PlayerO, None],
                         RowElement [None, None, None]],
         winnerTimeoutId = None, timeouts = [], nextTimeoutId = 1, nextNodeId = 0\<rparr>)
   \<and> fst (play (playAll (constructor []) [(0, 0)]) 1 1) = Inr None
   \<and> cellAt (board (snd (play (playAll (constructor []) [(0, 0)]) 1 1))) 1 1
       = Some (currentPlayer (playAll (constructor []) [(0, 0)]))
   \<and> turnCount (snd (play (playAll (constructor []) [(0, 0)]) 1 1))
       = turnCount (playAll (constructor []) [(0, 0)]) + 1"
proof -
  let ?s = "playAll (constructor []) [(0, 0)]"
  have w: "wf3 (board ?s)" by code_simp
  have g: "inRange 1 1" by code_simp
  have e: "cellAt (board ?s) 1 1 = None" by code_simp
  have c: "checkWin (renderBoard (updateBoard (placeMove ?s 1 1))) 1 1 \<noteq> Inr True" by code_simp
  have lo: "- (2 ^ 53) \<le> turnCount ?s" by code_simp
  have hi: "turnCount ?s < 2 ^ 53" by code_simp
  have ev: "play ?s 1 1 =
       (Inr None,
        \<lparr>board = [[Some PlayerX, None, None], [None, Some PlayerO, None], [None, None, None]],
         currentPlayer = PlayerX, turnCount = 2,
         playHistory = [\<lparr>player = PlayerX, row = 0, col = 0, turn = 0\<rparr>,
                        \<lparr>player = PlayerO, row = 1, col = 1, turn = 1\<rparr>],
         boardElement = [RowElement [Some PlayerX, None, None],
                         RowElement [None, Some PlayerO, None],
                         RowElement [None, None, None]],
         winnerTimeoutId = None, timeouts = [], nextTimeoutId = 1, nextNodeId = 0\<rparr>)"
    by code_simp
  note th = play_legal_move [OF w g e c lo hi]
  from th have c1: "fst (play ?s 1 1) = Inr None" by blast
  from th have c2: "cellAt (board (snd (play ?s 1 1))) 1 1 = Some (currentPlayer ?s)" by blast
  from th have c3: "turnCount (snd (play ?s 1 1)) = turnCount ?s + 1" by blast
  from w g e c lo hi ev c1 c2 c3 show ?thesis by (simp only: simp_thms)
qed

text \<open>
  Claim C5. For every engine state with a board of three by three and every \<open>(r, c)\<close> with
  \<open>r\<close> or \<open>c\<close> outside \<open>[0, 3)\<close>, \<open>play\<close> throws the error for an invalid cell (the
  \<open>Error\<close> with the message below, which the specification calls \<open>InvalidCellError\<close>), and
  the whole object is as it was before the call.
\<close>

theorem play_invalid_cell:
  assumes "wf3 (board s)" "\<not> inRange r c"
  shows "play s r c = (Inl (Error ''Invalid move. Please select a valid cell.''), s)"
  using assms by (simp add: play_def isValidCell_wf3)

theorem play_invalid_cell_witness:
  "wf3 (board (playAll (constructor []) [(0, 0)])) \<and> \<not> inRange 3 3
   \<and> play (playAll (constructor []) [(0, 0)]) 3 3 =
       (Inl (Error ''Invalid move. Please select a valid cell.''), playAll (constructor []) [(0, 0)])"
proof -
  have w: "wf3 (board (playAll (constructor []) [(0, 0)]))" by code_simp
  have g: "\<not> inRange 3 3" by code_simp
  from w g play_invalid_cell [OF w g] show ?thesis by (simp only: simp_thms)
qed

text \<open>
  Claim C6. For every engine state with a board of three by three and every \<open>(r, c)\<close> in
  range whose cell holds a player, \<open>play\<close> throws the error for a taken cell (the \<open>Error\<close>
  with the message below, which the specification calls \<open>CellTakenError\<close>), and the whole
  object is as it was before the call.
\<close>

theorem play_cell_taken:
  assumes "wf3 (board s)" "inRange r c" "cellAt (board s) r c \<noteq> None"
  shows "play s r c = (Inl (Error ''Cell already taken. Choose another one.''), s)"
  using assms by (simp add: play_def isValidCell_wf3)

theorem play_cell_taken_witness:
  "wf3 (board (playAll (constructor []) [(0, 0)])) \<and> inRange 0 0
   \<and> cellAt (board (playAll (constructor []) [(0, 0)])) 0 0 \<noteq> None
   \<and> play (playAll (constructor []) [(0, 0)]) 0 0 =
       (Inl (Error ''Cell already taken. Choose another one.''), playAll (constructor []) [(0, 0)])"
proof -
  have w: "wf3 (board (playAll (constructor []) [(0, 0)]))" by code_simp
  have g: "inRange 0 0" by code_simp
  have e: "cellAt (board (playAll (constructor []) [(0, 0)])) 0 0 \<noteq> None" by code_simp
  from w g e play_cell_taken [OF w g e] show ?thesis by (simp only: simp_thms)
qed

text \<open>
  Claim C7. The constructor returns the initial state, whatever the board element held: a board
  of three rows of three empty cells, X to move, turn counter \<open>0\<close>, empty history (and the
  three rows rendered, no timeout).
\<close>

theorem constructor_initial:
  "constructor be =
     \<lparr>board = [[None, None, None], [None, None, None], [None, None, None]],
      currentPlayer = PlayerX, turnCount = 0, playHistory = [],
      boardElement = [RowElement [None, None, None], RowElement [None, None, None],
                      RowElement [None, None, None]],
      winnerTimeoutId = None, timeouts = [], nextTimeoutId = 1, nextNodeId = 0\<rparr>"
  by (simp add: constructor_def init_def renderBoard_def setupBoard_def)

text \<open>
  Claim C8. In every reachable state at most one timeout of the winner message is pending, and
  it is the one whose handle \<open>winnerTimeoutId\<close> holds; it has a delay of 2000 milliseconds and,
  being single-shot, leaves none pending when it fires. When \<open>showWinner\<close> runs while that
  handle is set, the \<open>clearTimeout\<close> it starts with leaves no timeout pending, and after
  \<open>showWinner\<close> the only pending timeout is the new one, of 2000 milliseconds, under the
  handle that \<open>winnerTimeoutId\<close> now holds. Time itself is not modelled: a pending timeout
  may fire at any step, once.
\<close>

theorem one_pending_timeout:
  assumes "reachable s"
  shows "length (timeouts s) \<le> 1
    \<and> map handle (timeouts s) = (case winnerTimeoutId s of None \<Rightarrow> [] | Some h \<Rightarrow> [h])
    \<and> (\<forall>t \<in> set (timeouts s). delay t = 2000 \<and> timeouts (fire t s) = [])
    \<and> (\<forall>h. winnerTimeoutId s = Some h \<longrightarrow> timeouts (clearTimeout h s) = [])
    \<and> timeouts (showWinner w s) =
        [\<lparr>handle = nextTimeoutId s, delay = 2000,
          message = WinnerMessage (nextNodeId s) (showPlayer w @ '' wins!'')\<rparr>]
    \<and> winnerTimeoutId (showWinner w s) = Some (nextTimeoutId s)"
proof -
  from assms have t: "timerInv s" by (rule reachable_timerInv)
  then have m: "map handle (timeouts s) = (case winnerTimeoutId s of None \<Rightarrow> [] | Some h \<Rightarrow> [h])"
    by (simp add: timerInv_def)
  have "length (map handle (timeouts s)) \<le> 1"
    unfolding m by (simp split: option.splits)
  then have l: "length (timeouts s) \<le> 1" by simp
  have f: "delay u = 2000 \<and> timeouts (fire u s) = []" if "u \<in> set (timeouts s)" for u
  proof -
    from t that have "timeouts s = [u]"
      by (cases "winnerTimeoutId s") (auto dest: timerInv_timeouts)
    moreover from t that have "delay u = 2000" by (simp add: timerInv_def list_all_iff)
    ultimately show ?thesis by (simp add: fire_def winnerCallback_def Let_def)
  qed
  from m l f t show ?thesis
    by (simp add: showWinner_timeouts clearTimeout_pending)
qed

theorem one_pending_timeout_witness:
  "reachable (playAll (constructor []) [(0, 0), (1, 0), (0, 1), (1, 1), (0, 2)])
   \<and> winnerTimeoutId (playAll (constructor []) [(0, 0), (1, 0), (0, 1), (1, 1), (0, 2)]) = Some 1
   \<and> length (timeouts (playAll (constructor []) [(0, 0), (1, 0), (0, 1), (1, 1), (0, 2)])) \<le> 1
   \<and> timeouts (playAll (constructor []) [(0, 0), (1, 0), (0, 1), (1, 1), (0, 2)])
       = [\<lparr>handle = 1, delay = 2000, message = WinnerMessage 0 ''X wins!''\<rparr>]
   \<and> timeouts (fire \<lparr>handle = 1, delay = 2000, message = WinnerMessage 0 ''X wins!''\<rparr>
         (playAll (constructor []) [(0, 0), (1, 0), (0, 1), (1, 1), (0, 2)])) = []
   \<and> timeouts (clearTimeout 1 (playAll (constructor []) [(0, 0), (1, 0), (0, 1), (1, 1), (0, 2)])) = []
   \<and> timeouts (showWinner PlayerO (playAll (constructor []) [(0, 0), (1, 0), (0, 1), (1, 1), (0, 2)]))
       = [\<lparr>handle = 2, delay = 2000, message = WinnerMessage 1 ''O wins!''\<rparr>]"
proof -
  let ?s = "playAll (constructor []) [(0, 0), (1, 0), (0, 1), (1, 1), (0, 2)]"
  have r: "reachable ?s" by (intro reachable_playAll reachable_constructor)
  have i: "winnerTimeoutId ?s = Some 1" by code_simp
  have n: "nextTimeoutId ?s = 2" "nextNodeId ?s = 1" "showPlayer PlayerO @ '' wins!'' = ''O wins!''"
    by code_simp+
  note th = one_pending_timeout [OF r, of PlayerO]
  from th have c1: "length (timeouts ?s) \<le> 1" by blast
  have p: "timeouts ?s = [\<lparr>handle = 1, delay = 2000, message = WinnerMessage 0 ''X wins!''\<rparr>]"
    by code_simp
  then have "\<lparr>handle = 1, delay = 2000, message = WinnerMessage 0 ''X wins!''\<rparr> \<in> set (timeouts ?s)"
    by (simp only: list.set_intros)
  with th have c4: "timeouts (fire \<lparr>handle = 1, delay = 2000, message = WinnerMessage 0 ''X wins!''\<rparr> ?s) = []"
    by blast
  from th i have c2: "timeouts (clearTimeout 1 ?s) = []" by blast
  from th have c3: "timeouts (showWinner PlayerO ?s) =
        [\<lparr>handle = nextTimeoutId ?s, delay = 2000,
          message = WinnerMessage (nextNodeId ?s) (showPlayer PlayerO @ '' wins!'')\<rparr>]" by blast
  from r i c1 p c4 c2 c3 [unfolded n] show ?thesis by (simp only: simp_thms)
qed

text \<open>
  Claim C9. In every reachable state (after the constructor and after every call of \<open>play\<close>,
  whether it was accepted, won or threw) and for every cell \<open>(r, c)\<close> in range: the cell holds
  the player \<open>pl\<close> exactly when the entries of the history on that cell are a single entry
  whose player is \<open>pl\<close>. The number of occupied cells is the length of the history.
\<close>

theorem board_history_correspondence:
  assumes "reachable s" "inRange r c"
  shows "((cellAt (board s) r c = Some pl) =
          (\<exists>p. filter (\<lambda>q. row q = r \<and> col q = c) (playHistory s) = [p] \<and> player p = pl))
    \<and> occupied (board s) = length (playHistory s)"
proof -
  from assms(1) have inv: "engineInv s" by (rule reachable_engineInv)
  then have dst: "distinct (map pos (playHistory s))"
    and rel: "(cellAt (board s) r c = Some pl) =
            (\<exists>p \<in> set (playHistory s). row p = r \<and> col p = c \<and> player p = pl)"
    using assms(2) unfolding engineInv_def by blast+
  have "(\<exists>p \<in> set (playHistory s). row p = r \<and> col p = c \<and> player p = pl) =
        (\<exists>p. filter (\<lambda>q. row q = r \<and> col q = c) (playHistory s) = [p] \<and> player p = pl)"
  proof
    assume "\<exists>p \<in> set (playHistory s). row p = r \<and> col p = c \<and> player p = pl"
    then obtain p where p: "p \<in> set (playHistory s)" "row p = r" "col p = c" "player p = pl"
      by blast
    have "filter (\<lambda>q. pos q = pos p) (playHistory s) = [p]"
      using dst p(1) by (rule filter_unique)
    moreover have "(\<lambda>q. pos q = pos p) = (\<lambda>q. row q = r \<and> col q = c)"
      using p(2,3) by (simp add: pos_def)
    ultimately show "\<exists>p. filter (\<lambda>q. row q = r \<and> col q = c) (playHistory s) = [p] \<and> player p = pl"
      using p(4) by auto
  next
    assume "\<exists>p. filter (\<lambda>q. row q = r \<and> col q = c) (playHistory s) = [p] \<and> player p = pl"
    then obtain p where f: "filter (\<lambda>q. row q = r \<and> col q = c) (playHistory s) = [p]"
      and pl: "player p = pl" by blast
    from f have "p \<in> set (filter (\<lambda>q. row q = r \<and> col q = c) (playHistory s))" by simp
    then have "p \<in> set (playHistory s)" "row p = r" "col p = c" by simp_all
    with pl show "\<exists>p \<in> set (playHistory s). row p = r \<and> col p = c \<and> player p = pl" by blast
  qed
  with rel occupied_eq_length [OF inv] show ?thesis by simp
qed

theorem board_history_correspondence_witness:
  "reachable (playAll (constructor []) [(0, 0), (1, 1)]) \<and> inRange 1 1
   \<and> ((cellAt (board (playAll (constructor []) [(0, 0), (1, 1)])) 1 1 = Some PlayerO) =
       (\<exists>p. filter (\<lambda>q. row q = 1 \<and> col q = 1) (playHistory (playAll (constructor []) [(0, 0), (1, 1)])) = [p]
            \<and> player p = PlayerO))
   \<and> cellAt (board (playAll (constructor []) [(0, 0), (1, 1)])) 1 1 = Some PlayerO
   \<and> occupied (board (playAll (constructor []) [(0, 0), (1, 1)]))
       = length (playHistory (playAll (constructor []) [(0, 0), (1, 1)]))"
proof -
  let ?s = "playAll (constructor []) [(0, 0), (1, 1)]"
  have r: "reachable ?s" by (intro reachable_playAll reachable_constructor)
  have g: "inRange 1 1" by code_simp
  have c: "cellAt (board ?s) 1 1 = Some PlayerO" by code_simp
  note th = board_history_correspondence [OF r g, of PlayerO]
  from th have c1: "(cellAt (board ?s) 1 1 = Some PlayerO) =
       (\<exists>p. filter (\<lambda>q. row q = 1 \<and> col q = 1) (playHistory ?s) = [p] \<and> player p = PlayerO)"
    by blast
  from th have c2: "occupied (board ?s) = length (playHistory ?s)" by blast
  from r g c c1 c2 show ?thesis by blast
qed

text \<open>
  Claim C10. In every reachable state the turn \<open>t\<close> of every history entry satisfies
  \<open>turnCount - 6 < t < turnCount\<close>, the turns increase strictly along the history, the history
  has at most five entries and the board at most five occupied cells.
\<close>

theorem history_bounded:
  assumes "reachable s"
  shows "(\<forall>p \<in> set (playHistory s). turnCount s - 6 < turn p \<and> turn p < turnCount s)
    \<and> sorted_wrt (<) (map turn (playHistory s))
    \<and> length (playHistory s) \<le> 5
    \<and> occupied (board s) \<le> 5"
proof -
  from assms have inv: "engineInv s" by (rule reachable_engineInv)
  then have ok: "list_all (entryOk (turnCount s)) (playHistory s)"
    and srt: "sorted_wrt (\<lambda>p q. turn p < turn q) (playHistory s)"
    unfolding engineInv_def by blast+
  have l: "length (playHistory s) \<le> 5" using ok srt by (rule history_length_le)
  from ok have "\<forall>p \<in> set (playHistory s). turnCount s - 6 < turn p \<and> turn p < turnCount s"
    by (simp add: list_all_iff entryOk_def)
  with srt l occupied_eq_length [OF inv] show ?thesis
    by (simp add: sorted_wrt_map)
qed

theorem history_bounded_witness:
  "reachable (playAll (constructor []) [(0, 0), (0, 1), (0, 2), (1, 0), (1, 1), (1, 2), (2, 1)])
   \<and> \<lparr>player = PlayerX, row = 0, col = 2, turn = 2\<rparr>
       \<in> set (playHistory (playAll (constructor []) [(0, 0), (0, 1), (0, 2), (1, 0), (1, 1), (1, 2), (2, 1)]))
   \<and> turnCount (playAll (constructor []) [(0, 0), (0, 1), (0, 2), (1, 0), (1, 1), (1, 2), (2, 1)]) = 7
   \<and> turnCount (playAll (constructor []) [(0, 0), (0, 1), (0, 2), (1, 0), (1, 1), (1, 2), (2, 1)]) - 6 < 2
   \<and> 2 < turnCount (playAll (constructor []) [(0, 0), (0, 1), (0, 2), (1, 0), (1, 1), (1, 2), (2, 1)])
   \<and> length (playHistory (playAll (constructor []) [(0, 0), (0, 1), (0, 2), (1, 0), (1, 1), (1, 2), (2, 1)])) \<le> 5
   \<and> occupied (board (playAll (constructor []) [(0, 0), (0, 1), (0, 2), (1, 0), (1, 1), (1, 2), (2, 1)])) \<le> 5
   \<and> sorted_wrt (<) (map turn (playHistory (playAll (constructor []) [(0, 0), (0, 1), (0, 2), (1, 0), (1, 1), (1, 2), (2, 1)])))"
proof -
  let ?s = "playAll (constructor []) [(0, 0), (0, 1), (0, 2), (1, 0), (1, 1), (1, 2), (2, 1)]"
  have r: "reachable ?s" by (intro reachable_playAll reachable_constructor)
  have m: "\<lparr>player = PlayerX, row = 0, col = 2, turn = 2\<rparr> \<in> set (playHistory ?s)" by code_simp
  have t: "turnCount ?s = 7" by code_simp
  note th = history_bounded [OF r]
  from th m have "turnCount ?s - 6 < turn \<lparr>player = PlayerX, row = 0, col = 2, turn = 2\<rparr>
        \<and> turn \<lparr>player = PlayerX, row = 0, col = 2, turn = 2\<rparr> < turnCount ?s" by blast
  then have c0: "turnCount ?s - 6 < 2" "2 < turnCount ?s" by simp_all
  from th have c1: "length (playHistory ?s) \<le> 5" by blast
  from th have c2: "occupied (board ?s) \<le> 5" by blast
  from th have c3: "sorted_wrt (<) (map turn (playHistory ?s))" by blast
  from r m t c0 c1 c2 c3 show ?thesis by (simp only: simp_thms)
qed

end
